theory Spec2Isabelle
  imports Main "HOL-Library.AList"
begin

section \<open>The equality generator of hack/generate\_podspec\_equal.py\<close>

text \<open>
  The script reads Go type declarations, walks the types reachable from a root name
  breadth first and prints one Go equality function per reached type. The model below
  follows the Python text function by function. Strings are byte lists; the character
  classes of the regular expressions are the ASCII ones, so the model speaks about
  ASCII input text.
\<close>

subsection \<open>Strings\<close>

definition tab :: string where
  "tab = [CHR 0x09]"

definition startswith :: "string \<Rightarrow> string \<Rightarrow> bool" where
  \<comment> \<open>\<^verbatim>\<open>s.startswith(p)\<close>\<close>
  "startswith s p = (take (length p) s = p)"

fun join_lines :: "string list \<Rightarrow> string" where
  \<comment> \<open>\<^verbatim>\<open>"\n".join(lines)\<close>\<close>
  "join_lines [] = []"
| "join_lines [l] = l"
| "join_lines (l # ls) = l @ CHR ''\<newline>'' # join_lines ls"

definition is_word :: "char \<Rightarrow> bool" where
  \<comment> \<open>\<^verbatim>\<open>\w\<close> on ASCII: letters, digits and the underscore\<close>
  "is_word c =
     (let n = (of_char c :: nat)
      in (48 \<le> n \<and> n \<le> 57) \<or> (65 \<le> n \<and> n \<le> 90) \<or> (97 \<le> n \<and> n \<le> 122) \<or> n = 95)"

definition is_word_dot :: "char \<Rightarrow> bool" where
  \<comment> \<open>\<^verbatim>\<open>[\w\.]\<close>\<close>
  "is_word_dot c = (is_word c \<or> c = CHR ''.'')"

definition is_space :: "char \<Rightarrow> bool" where
  \<comment> \<open>\<^verbatim>\<open>\s\<close> on ASCII: tab, newline, VT, FF, CR, the separators 0x1c to 0x1f, space\<close>
  "is_space c =
     (let n = (of_char c :: nat) in (9 \<le> n \<and> n \<le> 13) \<or> (28 \<le> n \<and> n \<le> 32))"

definition match_map_type :: "string \<Rightarrow> (string \<times> string) option" where
  \<comment> \<open>\<^verbatim>\<open>re.match(r'map\[([\w\.]+)\]([\w\.]+)', s)\<close>: the groups (1, 2) of a match at
      the start of \<open>s\<close>. Both repetitions are greedy and the character after each is
      outside its class, so the longest run is the only candidate.\<close>
  "match_map_type s =
     (if startswith s ''map['' then
        (let r = drop 4 s;
             key_type = takeWhile is_word_dot r;
             r' = dropWhile is_word_dot r;
             val_type = takeWhile is_word_dot (drop 1 r')
         in if key_type \<noteq> [] \<and> startswith r' '']'' \<and> val_type \<noteq> []
            then Some (key_type, val_type) else None)
      else None)"

subsection \<open>The registries and the override tables\<close>

type_synonym field = "string \<times> string"

text \<open>
  A Python dict is an association list read with \<^const>\<open>map_of\<close>; \<^verbatim>\<open>d[k] = v\<close> is
  \<^const>\<open>AList.update\<close>, which overwrites in place or appends.
\<close>

type_synonym structs = "(string \<times> field list) list"
type_synonym maps = "(string \<times> (string \<times> string)) list"

definition has_key :: "(string \<times> 'v) list \<Rightarrow> string \<Rightarrow> bool" where
  \<comment> \<open>\<^verbatim>\<open>k in d\<close>\<close>
  "has_key d k = (map_of d k \<noteq> None)"

definition SPECIAL_TYPES :: "(string \<times> string) list" where
  "SPECIAL_TYPES =
     [(''resource.Quantity'', ''Equal''),
      (''metav1.Time'', ''Equal''),
      (''metav1.MicroTime'', ''Equal'')]"

definition COMPARABLE_TYPES :: "string list" where
  "COMPARABLE_TYPES = [''intstr.IntOrString'']"

definition EXTERNAL_TYPES :: "string list" where
  "EXTERNAL_TYPES =
     [''metav1.ObjectMeta'',
      ''metav1.LabelSelector'',
      ''metav1.OwnerReference'',
      ''metav1.NamespaceSelector'']"

subsection \<open>generate\_equal\_method\<close>

definition ret_false :: string where
  "ret_false = '' { return false }''"

definition slice_ptr_elem :: "structs \<Rightarrow> string \<Rightarrow> string \<Rightarrow> string \<Rightarrow> string \<Rightarrow> string list" where
  \<comment> \<open>lines 99 to 111: the element type starts with a star\<close>
  "slice_ptr_elem all_struct_names indent a_elem b_elem elem_type =
     (let elem_base = drop 1 elem_type in
      [indent @ tab @ ''if ('' @ a_elem @ '' == nil) != ('' @ b_elem @ '' == nil)'' @ ret_false,
       indent @ tab @ ''if '' @ a_elem @ '' != nil {'',
       (if has_key all_struct_names elem_base then
          indent @ tab @ tab @ ''if !'' @ elem_base @ ''Equal(*'' @ a_elem @ '', *'' @ b_elem @ '')'' @ ret_false
        else (case map_of SPECIAL_TYPES elem_base of
          Some meth \<Rightarrow>
            indent @ tab @ tab @ ''if !'' @ a_elem @ ''.'' @ meth @ ''(*'' @ b_elem @ '')'' @ ret_false
        | None \<Rightarrow>
            if elem_base \<in> set COMPARABLE_TYPES then
              indent @ tab @ tab @ ''if *'' @ a_elem @ '' != *'' @ b_elem @ ret_false
            else
              indent @ tab @ tab @ ''if *'' @ a_elem @ '' != *'' @ b_elem @ ret_false)),
       indent @ tab @ ''}''])"

definition slice_elem :: "structs \<Rightarrow> string \<Rightarrow> string \<Rightarrow> string \<Rightarrow> string \<Rightarrow> string list" where
  \<comment> \<open>lines 113 to 122: the element type has no star\<close>
  "slice_elem all_struct_names indent a_elem b_elem elem_type =
     [if has_key all_struct_names elem_type then
        indent @ tab @ ''if !'' @ elem_type @ ''Equal('' @ a_elem @ '', '' @ b_elem @ '')'' @ ret_false
      else (case map_of SPECIAL_TYPES elem_type of
        Some meth \<Rightarrow>
          indent @ tab @ ''if !'' @ a_elem @ ''.'' @ meth @ ''('' @ b_elem @ '')'' @ ret_false
      | None \<Rightarrow>
          if elem_type \<in> set COMPARABLE_TYPES then
            indent @ tab @ ''if '' @ a_elem @ '' != '' @ b_elem @ ret_false
          else if elem_type \<in> set EXTERNAL_TYPES then
            indent @ tab @ ''if !reflect.DeepEqual('' @ a_elem @ '', '' @ b_elem @ '')'' @ ret_false
          else
            indent @ tab @ ''if '' @ a_elem @ '' != '' @ b_elem @ ret_false)]"

definition slice_lines :: "structs \<Rightarrow> string \<Rightarrow> string \<Rightarrow> string \<Rightarrow> string \<Rightarrow> string list" where
  \<comment> \<open>lines 93 to 124\<close>
  "slice_lines all_struct_names indent a_val b_val elem_type =
     (let a_elem = a_val @ ''[i]''; b_elem = b_val @ ''[i]'' in
      [indent @ ''if len('' @ a_val @ '') != len('' @ b_val @ '')'' @ ret_false,
       indent @ ''for i := range '' @ a_val @ '' {''] @
      (if startswith elem_type ''*''
       then slice_ptr_elem all_struct_names indent a_elem b_elem elem_type
       else slice_elem all_struct_names indent a_elem b_elem elem_type) @
      [indent @ ''}''])"

definition map_lines :: "string \<Rightarrow> string \<Rightarrow> string \<Rightarrow> string \<Rightarrow> string list" where
  \<comment> \<open>lines 127 to 136; the two groups of the match are bound and not read\<close>
  "map_lines indent a_val b_val base_type =
     (case match_map_type base_type of
        Some (key_type, val_type) \<Rightarrow>
          [indent @ ''if len('' @ a_val @ '') != len('' @ b_val @ '')'' @ ret_false,
           indent @ ''for k, v := range '' @ a_val @ '' {'',
           indent @ tab @ ''if v2, ok := '' @ b_val @ ''[k]; !ok || v != v2'' @ ret_false,
           indent @ ''}'']
      | None \<Rightarrow>
          [indent @ ''if !reflect.DeepEqual('' @ a_val @ '', '' @ b_val @ '')'' @ ret_false])"

definition base_lines :: "structs \<Rightarrow> maps \<Rightarrow> string \<Rightarrow> string \<Rightarrow> string \<Rightarrow> string \<Rightarrow> string list" where
  \<comment> \<open>lines 139 to 151\<close>
  "base_lines all_struct_names all_maps indent a_val b_val base_type =
     [if has_key all_maps base_type then
        indent @ ''if !'' @ base_type @ ''Equal('' @ a_val @ '', '' @ b_val @ '')'' @ ret_false
      else if has_key all_struct_names base_type then
        indent @ ''if !'' @ base_type @ ''Equal('' @ a_val @ '', '' @ b_val @ '')'' @ ret_false
      else (case map_of SPECIAL_TYPES base_type of
        Some meth \<Rightarrow>
          indent @ ''if !'' @ a_val @ ''.'' @ meth @ ''('' @ b_val @ '')'' @ ret_false
      | None \<Rightarrow>
          if base_type \<in> set COMPARABLE_TYPES then
            indent @ ''if '' @ a_val @ '' != '' @ b_val @ ret_false
          else if base_type \<in> set EXTERNAL_TYPES then
            indent @ ''if !reflect.DeepEqual('' @ a_val @ '', '' @ b_val @ '')'' @ ret_false
          else
            indent @ ''if '' @ a_val @ '' != '' @ b_val @ ret_false)]"

definition compare_lines :: "structs \<Rightarrow> maps \<Rightarrow> string \<Rightarrow> string \<Rightarrow> string \<Rightarrow> string \<Rightarrow> string list" where
  \<comment> \<open>lines 92 to 151: the chain \<^verbatim>\<open>if is_slice / elif is_map / else\<close> on the type with
      the leading star, if any, removed\<close>
  "compare_lines all_struct_names all_maps indent a_val b_val base_type =
     (let is_slice = startswith base_type ''[]'';
          elem_type = (if is_slice then drop 2 base_type else base_type);
          is_map = startswith base_type ''map[''
      in if is_slice then slice_lines all_struct_names indent a_val b_val elem_type
         else if is_map then map_lines indent a_val b_val base_type
         else base_lines all_struct_names all_maps indent a_val b_val base_type)"

definition field_lines :: "structs \<Rightarrow> maps \<Rightarrow> field \<Rightarrow> string list" where
  \<comment> \<open>one round of the loop over the fields, lines 72 to 154\<close>
  "field_lines all_struct_names all_maps fld =
     (case fld of (fname, ftype) \<Rightarrow>
      (let is_ptr = startswith ftype ''*'';
           base_type = (if is_ptr then drop 1 ftype else ftype);
           a_val = (if is_ptr then ''*a.'' @ fname else ''a.'' @ fname);
           b_val = (if is_ptr then ''*b.'' @ fname else ''b.'' @ fname);
           indent = (if is_ptr then tab @ tab else tab)
       in (if is_ptr then
             [tab @ ''if (a.'' @ fname @ '' == nil) != (b.'' @ fname @ '' == nil)'' @ ret_false,
              tab @ ''if a.'' @ fname @ '' != nil {'']
           else []) @
          compare_lines all_struct_names all_maps indent a_val b_val base_type @
          (if is_ptr then [tab @ ''}''] else [])))"

definition generate_equal_lines :: "string \<Rightarrow> field list \<Rightarrow> structs \<Rightarrow> maps \<Rightarrow> string list" where
  \<comment> \<open>the list \<^verbatim>\<open>lines\<close> at the return of generate\_equal\_method\<close>
  "generate_equal_lines name fields all_struct_names all_maps =
     [''func '' @ name @ ''Equal(a, b corev1.'' @ name @ '') bool {''] @
     concat (map (field_lines all_struct_names all_maps) fields) @
     [tab @ ''return true'', ''}'']"

definition generate_equal_method :: "string \<Rightarrow> field list \<Rightarrow> structs \<Rightarrow> maps \<Rightarrow> string" where
  "generate_equal_method name fields all_struct_names all_maps =
     join_lines (generate_equal_lines name fields all_struct_names all_maps)"

subsection \<open>generate\_map\_equal\<close>

definition generate_map_equal_lines :: "string \<Rightarrow> string \<Rightarrow> string \<Rightarrow> string list" where
  "generate_map_equal_lines name key_type val_type =
     [''func '' @ name @ ''Equal(a, b corev1.'' @ name @ '') bool {'',
      tab @ ''if len(a) != len(b)'' @ ret_false,
      tab @ ''for k, v := range a {'',
      (case map_of SPECIAL_TYPES val_type of
         Some meth \<Rightarrow>
           tab @ tab @ ''if v2, ok := b[k]; !ok || !v.'' @ meth @ ''(v2)'' @ ret_false
       | None \<Rightarrow>
           if val_type = ''resource.Quantity'' then
             tab @ tab @ ''if v2, ok := b[k]; !ok || !v.Equal(v2)'' @ ret_false
           else
             tab @ tab @ ''if v2, ok := b[k]; !ok || v != v2'' @ ret_false),
      tab @ ''}'',
      tab @ ''return true'',
      ''}'']"

definition generate_map_equal :: "string \<Rightarrow> string \<Rightarrow> string \<Rightarrow> string" where
  "generate_map_equal name key_type val_type =
     join_lines (generate_map_equal_lines name key_type val_type)"

subsection \<open>parse\_types\<close>

fun split_newline :: "string \<Rightarrow> string list" where
  \<comment> \<open>\<^verbatim>\<open>content.split('\n')\<close>\<close>
  "split_newline [] = [] # []"
| "split_newline (c # cs) =
     (if c = CHR ''\<newline>'' then [] # split_newline cs
      else (case split_newline cs of l # ls \<Rightarrow> (c # l) # ls | [] \<Rightarrow> [c] # []))"

fun before_comment :: "string \<Rightarrow> string" where
  \<comment> \<open>\<^verbatim>\<open>line.split('//')[0]\<close>\<close>
  "before_comment (c # d # s) =
     (if c = CHR ''/'' \<and> d = CHR ''/'' then [] else c # before_comment (d # s))"
| "before_comment s = s"

definition spaces1 :: "string \<Rightarrow> string option" where
  \<comment> \<open>\<^verbatim>\<open>\s+\<close> at the start of \<open>s\<close>: what follows the run of whitespace\<close>
  "spaces1 s = (if takeWhile is_space s = [] then None else Some (dropWhile is_space s))"

definition word1 :: "string \<Rightarrow> (string \<times> string) option" where
  \<comment> \<open>\<^verbatim>\<open>(\w+)\<close> at the start of \<open>s\<close>: the group and what follows it\<close>
  "word1 s =
     (if takeWhile is_word s = [] then None else Some (takeWhile is_word s, dropWhile is_word s))"

definition type_name :: "string \<Rightarrow> (string \<times> string) option" where
  \<comment> \<open>\<^verbatim>\<open>^type\s+(\w+)\s+\<close>, the common start of the two declaration patterns\<close>
  "type_name line =
     (if startswith line ''type'' then
        (case spaces1 (drop 4 line) of
           None \<Rightarrow> None
         | Some r \<Rightarrow>
             (case word1 r of
                None \<Rightarrow> None
              | Some (name, r') \<Rightarrow>
                  (case spaces1 r' of None \<Rightarrow> None | Some r'' \<Rightarrow> Some (name, r''))))
      else None)"

definition map_type_re :: "string \<Rightarrow> (string \<times> string \<times> string) option" where
  \<comment> \<open>\<^verbatim>\<open>^type\s+(\w+)\s+map\[([\w\.]+)\]([\w\.]+)\<close>\<close>
  "map_type_re line =
     (case type_name line of
        None \<Rightarrow> None
      | Some (name, r) \<Rightarrow>
          (case match_map_type r of
             None \<Rightarrow> None
           | Some (key_type, val_type) \<Rightarrow> Some (name, key_type, val_type)))"

definition struct_start_re :: "string \<Rightarrow> string option" where
  \<comment> \<open>\<^verbatim>\<open>^type\s+(\w+)\s+struct\s+\{\<close>\<close>
  "struct_start_re line =
     (case type_name line of
        None \<Rightarrow> None
      | Some (name, r) \<Rightarrow>
          (if startswith r ''struct'' then
             (case spaces1 (drop 6 r) of
                None \<Rightarrow> None
              | Some r' \<Rightarrow> if startswith r' ''{'' then Some name else None)
           else None))"

definition is_type_char :: "char \<Rightarrow> bool" where
  \<comment> \<open>the class of a character that is neither a backquote nor whitespace\<close>
  "is_type_char c = (c \<noteq> CHR 0x60 \<and> \<not> is_space c)"

definition field_re :: "string \<Rightarrow> field option" where
  \<comment> \<open>\<^verbatim>\<open>^\s+(\w+)\s+([^`\s]+)\<close>\<close>
  "field_re line =
     (case spaces1 line of
        None \<Rightarrow> None
      | Some r \<Rightarrow>
          (case word1 r of
             None \<Rightarrow> None
           | Some (field_name, r') \<Rightarrow>
               (case spaces1 r' of
                  None \<Rightarrow> None
                | Some r'' \<Rightarrow>
                    if takeWhile is_type_char r'' = [] then None
                    else Some (field_name, takeWhile is_type_char r''))))"

definition end_re :: "string \<Rightarrow> bool" where
  \<comment> \<open>\<^verbatim>\<open>^\}\<close>\<close>
  "end_re line = startswith line ''}''"

type_synonym parse_state = "structs \<times> maps \<times> string option"

definition parse_line :: "string \<Rightarrow> parse_state \<Rightarrow> parse_state" where
  \<comment> \<open>one round of the loop over the lines. \<^verbatim>\<open>current_struct\<close> is \<open>None\<close> or a name
      matched by \<^verbatim>\<open>\w+\<close>, which is not empty, so its truth value is \<open>Some\<close>. It is a
      key of \<^verbatim>\<open>structs\<close> whenever it is set, so the append finds its list.\<close>
  "parse_line line st =
     (case st of (structs, maps, current_struct) \<Rightarrow>
      (case map_type_re line of
         Some (name, key_type, val_type) \<Rightarrow>
           (structs, AList.update name (key_type, val_type) maps, current_struct)
       | None \<Rightarrow>
           (case struct_start_re line of
              Some name \<Rightarrow> (AList.update name [] structs, maps, Some name)
            | None \<Rightarrow>
                (case current_struct of
                   None \<Rightarrow> st
                 | Some cs \<Rightarrow>
                     if end_re line then (structs, maps, None)
                     else (case field_re (before_comment line) of
                             Some fld \<Rightarrow>
                               (AList.map_entry cs (\<lambda>fields. fields @ [fld]) structs, maps,
                                current_struct)
                           | None \<Rightarrow> st)))))"

definition parse_types :: "string \<Rightarrow> structs \<times> maps" where
  "parse_types content =
     (case fold parse_line (split_newline content) ([], [], None) of
        (structs, maps, current_struct) \<Rightarrow> (structs, maps))"

subsection \<open>main: the breadth-first closure\<close>

fun replace_brackets :: "string \<Rightarrow> string" where
  \<comment> \<open>\<^verbatim>\<open>s.replace("[]", "")\<close>\<close>
  "replace_brackets (c # d # s) =
     (if c = CHR ''['' \<and> d = CHR '']'' then replace_brackets s
      else c # replace_brackets (d # s))"
| "replace_brackets s = s"

definition replace_star :: "string \<Rightarrow> string" where
  \<comment> \<open>\<^verbatim>\<open>s.replace("*", "")\<close>\<close>
  "replace_star s = filter (\<lambda>c. c \<noteq> CHR ''*'') s"

fun enqueue_fields :: "structs \<Rightarrow> maps \<Rightarrow> string set \<Rightarrow> field list \<Rightarrow> string list \<Rightarrow> string list" where
  \<comment> \<open>the loop over the fields of a visited struct, lines 208 to 217\<close>
  "enqueue_fields structs maps seen [] queue = queue"
| "enqueue_fields structs maps seen ((fname, ftype) # fields) queue =
     (let base = replace_star (replace_brackets ftype) in
      if has_key maps base then
        enqueue_fields structs maps seen fields (if base \<notin> seen then queue @ [base] else queue)
      else
        enqueue_fields structs maps seen fields
          (if has_key structs base \<and> base \<notin> seen then queue @ [base] else queue))"

definition enqueue_refs :: "structs \<Rightarrow> maps \<Rightarrow> string \<Rightarrow> string set \<Rightarrow> string list \<Rightarrow> string list" where
  \<comment> \<open>lines 207 to 223: what visiting \<open>name\<close> appends to the queue\<close>
  "enqueue_refs structs maps name seen queue =
     (case map_of structs name of
        Some fields \<Rightarrow> enqueue_fields structs maps seen fields queue
      | None \<Rightarrow>
          (case map_of maps name of
             Some (key_type, val_type) \<Rightarrow>
               (let base = replace_star val_type in
                if has_key structs base \<and> base \<notin> seen then queue @ [base] else queue)
           | None \<Rightarrow> queue))"

type_synonym bfs_state = "string list \<times> string set \<times> string list"

definition loop_body :: "structs \<Rightarrow> maps \<Rightarrow> bfs_state \<Rightarrow> bfs_state" where
  \<comment> \<open>one round of \<^verbatim>\<open>while queue\<close>, on the state (queue, seen, ordered)\<close>
  "loop_body structs maps st =
     (case st of (queue, seen, ordered) \<Rightarrow>
      (case queue of
         [] \<Rightarrow> st
       | name # rest \<Rightarrow>
           if name \<in> seen then (rest, seen, ordered)
           else (enqueue_refs structs maps name (insert name seen) rest,
                 insert name seen, ordered @ [name])))"

function bfs_loop :: "structs \<Rightarrow> maps \<Rightarrow> bfs_state \<Rightarrow> bfs_state" where
  "bfs_loop structs maps (queue, seen, ordered) =
     (if queue = [] then (queue, seen, ordered)
      else bfs_loop structs maps (loop_body structs maps (queue, seen, ordered)))"
  by pat_completeness auto
termination
proof (relation "inv_image (less_than <*lex*> less_than)
         (\<lambda>(S, M, queue, seen, ordered).
            (card ((set queue \<union> fst ` set S \<union> fst ` set M) - seen), length queue))")
  show "wf (inv_image (less_than <*lex*> less_than)
         (\<lambda>(S, M, queue, seen, ordered).
            (card ((set queue \<union> fst ` set S \<union> fst ` set M) - (seen :: string set)),
             length (queue :: string list))))"
    by (intro wf_inv_image wf_lex_prod wf_less_than)
next
  fix S :: structs and M :: maps and queue :: "string list"
    and seen :: "string set" and ordered :: "string list"
  assume ne: "queue \<noteq> []"
  let ?K = "fst ` set S \<union> fst ` set M"
  have key: "\<And>d :: (string \<times> 'v) list. \<And>k. has_key d k \<Longrightarrow> k \<in> fst ` set d"
    by (simp add: has_key_def map_of_eq_None_iff)
  have fields: "set (enqueue_fields S M sn fs q) \<subseteq> set q \<union> ?K" for sn fs q
  proof (induction fs arbitrary: q)
    case Nil
    show ?case by simp
  next
    case (Cons f fs)
    obtain fname ftype where f: "f = (fname, ftype)" by (cases f)
    show ?case
      using Cons.IH [of "q @ [replace_star (replace_brackets ftype)]"] Cons.IH [of q]
        key [of M "replace_star (replace_brackets ftype)"]
        key [of S "replace_star (replace_brackets ftype)"]
      by (auto simp: f Let_def)
  qed
  have refs: "set (enqueue_refs S M n sn q) \<subseteq> set q \<union> ?K" for n sn q
    using fields [of sn _ q] key [of S]
    by (auto simp: enqueue_refs_def Let_def split: option.splits)
  obtain name rest where q: "queue = name # rest"
    using ne by (cases queue) auto
  show "((S, M, loop_body S M (queue, seen, ordered)), (S, M, queue, seen, ordered))
          \<in> inv_image (less_than <*lex*> less_than)
              (\<lambda>(S, M, queue, seen, ordered).
                 (card ((set queue \<union> fst ` set S \<union> fst ` set M) - seen), length queue))"
  proof (cases "name \<in> seen")
    case True
    then have "(set rest \<union> ?K) - seen = (set queue \<union> ?K) - seen"
      by (auto simp: q)
    then show ?thesis
      using True by (simp add: loop_body_def q Un_assoc)
  next
    case False
    let ?q' = "enqueue_refs S M name (insert name seen) rest"
    have "(set ?q' \<union> ?K) - insert name seen \<subset> (set queue \<union> ?K) - seen"
      using refs [of name "insert name seen" rest] False by (auto simp: q)
    moreover have "finite ((set queue \<union> ?K) - seen)"
      by simp
    ultimately have "card ((set ?q' \<union> ?K) - insert name seen) < card ((set queue \<union> ?K) - seen)"
      by (rule psubset_card_mono [rotated])
    then show ?thesis
      using False by (simp add: loop_body_def q Un_assoc)
  qed
qed

definition visitation_order :: "structs \<Rightarrow> maps \<Rightarrow> string \<Rightarrow> string list" where
  \<comment> \<open>\<^verbatim>\<open>ordered\<close> when the loop ends, from \<^verbatim>\<open>queue = [root]\<close>, \<^verbatim>\<open>seen = set()\<close>,
      \<^verbatim>\<open>ordered = []\<close>; the script's root is \<^verbatim>\<open>PodSpec\<close>\<close>
  "visitation_order structs maps root =
     (case bfs_loop structs maps ([root], {}, []) of (queue, seen, ordered) \<Rightarrow> ordered)"

subsection \<open>main: the output\<close>

definition header_lines :: "string list" where
  \<comment> \<open>the eight prints before the loop over \<^verbatim>\<open>ordered\<close>\<close>
  "header_lines =
     [''// Code generated by hack/generate_podspec_equal.py. DO NOT EDIT.'',
      ''package workloadmanager'',
      [],
      ''import ('',
      tab @ ''corev1 '' @ [CHR 0x22] @ ''k8s.io/api/core/v1'' @ [CHR 0x22],
      tab @ [CHR 0x22] @ ''reflect'' @ [CHR 0x22],
      '')'',
      []]"

definition emit_one :: "structs \<Rightarrow> maps \<Rightarrow> string \<Rightarrow> string list" where
  \<comment> \<open>the prints of one round of the loop over \<^verbatim>\<open>ordered\<close>, lines 235 to 241\<close>
  "emit_one structs maps name =
     (case map_of structs name of
        Some fields \<Rightarrow> [generate_equal_method name fields structs maps, []]
      | None \<Rightarrow>
          (case map_of maps name of
             Some (k, v) \<Rightarrow> [generate_map_equal name k v, []]
           | None \<Rightarrow> []))"

fun emit_loop :: "structs \<Rightarrow> maps \<Rightarrow> string list \<Rightarrow> string list" where
  "emit_loop structs maps [] = []"
| "emit_loop structs maps (name # ordered) =
     emit_one structs maps name @ emit_loop structs maps ordered"

definition generate :: "string \<Rightarrow> string \<Rightarrow> string list" where
  \<comment> \<open>the arguments of the prints of main, in order, for the text \<open>content\<close> of
      types.go and the root name\<close>
  "generate root content =
     (case parse_types content of
        (structs, maps) \<Rightarrow>
          header_lines @ emit_loop structs maps (visitation_order structs maps root))"

definition output_text :: "string list \<Rightarrow> string" where
  \<comment> \<open>what the prints write: each argument and a newline\<close>
  "output_text prints = concat (map (\<lambda>p. p @ [CHR ''\<newline>'']) prints)"

definition main :: "string \<Rightarrow> string" where
  "main content = output_text (generate ''PodSpec'' content)"

subsection \<open>Notions used to state the properties\<close>

definition references :: "structs \<Rightarrow> maps \<Rightarrow> string \<Rightarrow> string list" where
  \<comment> \<open>the names a visit of \<open>name\<close> discovers: what it appends to an empty queue when
      nothing is seen yet\<close>
  "references structs maps name = enqueue_refs structs maps name {} []"

primrec first_occurrences :: "'a list \<Rightarrow> 'a list" where
  \<comment> \<open>a list without its repetitions: each element stays where it occurs first\<close>
  "first_occurrences [] = []"
| "first_occurrences (x # xs) = x # filter (\<lambda>y. y \<noteq> x) (first_occurrences xs)"

definition word_names :: "structs \<Rightarrow> maps \<Rightarrow> bool" where
  \<comment> \<open>every declared name consists of word characters, as \<^verbatim>\<open>(\w+)\<close> matches them\<close>
  "word_names structs maps =
     (list_all (\<lambda>e. list_all is_word (fst e)) structs \<and>
      list_all (\<lambda>e. list_all is_word (fst e)) maps)"

definition equal_header :: "string \<Rightarrow> string" where
  \<comment> \<open>the first line of both generated functions\<close>
  "equal_header name = ''func '' @ name @ ''Equal(a, b corev1.'' @ name @ '') bool {''"

definition functions_for :: "string \<Rightarrow> string list \<Rightarrow> string list" where
  \<comment> \<open>the printed texts that define the equality function of \<open>name\<close>\<close>
  "functions_for name prints = filter (\<lambda>p. startswith p (''func '' @ name @ ''Equal('')) prints"

definition first_line :: "string \<Rightarrow> string" where
  "first_line p = takeWhile (\<lambda>c. c \<noteq> CHR ''\<newline>'') p"

definition unseen_once :: "bfs_state \<Rightarrow> bool" where
  \<comment> \<open>no name that is not yet seen occurs twice in the queue\<close>
  "unseen_once st =
     (case st of (queue, seen, ordered) \<Rightarrow> distinct (filter (\<lambda>n. n \<notin> seen) queue))"

definition pod_text :: string where
  \<comment> \<open>the declaration of Pod, one field per line as gofmt lays it out\<close>
  "pod_text =
     ''type Pod struct {'' @ [CHR ''\<newline>''] @
     tab @ ''Name string'' @ [CHR ''\<newline>''] @
     tab @ ''Labels map[string]string'' @ [CHR ''\<newline>''] @
     tab @ ''Owner *Pod'' @ [CHR ''\<newline>''] @
     ''}'' @ [CHR ''\<newline>'']"

section \<open>The emitted comparisons\<close>

subsection \<open>Indentation\<close>

text \<open>
  Every emitted line starts with the indentation it is given, so a deeper indentation
  only prefixes the lines.
\<close>

lemma slice_ptr_elem_indent:
  "slice_ptr_elem S (ind @ i) a b t = map ((@) ind) (slice_ptr_elem S i a b t)"
  by (simp add: slice_ptr_elem_def Let_def split: option.split)

lemma slice_elem_indent:
  "slice_elem S (ind @ i) a b t = map ((@) ind) (slice_elem S i a b t)"
  by (simp add: slice_elem_def split: option.split)

lemma slice_lines_indent:
  "slice_lines S (ind @ i) a b t = map ((@) ind) (slice_lines S i a b t)"
  by (simp add: slice_lines_def Let_def slice_ptr_elem_indent slice_elem_indent)

lemma map_lines_indent:
  "map_lines (ind @ i) a b t = map ((@) ind) (map_lines i a b t)"
  by (simp add: map_lines_def split: option.split)

lemma base_lines_indent:
  "base_lines S M (ind @ i) a b t = map ((@) ind) (base_lines S M i a b t)"
  by (simp add: base_lines_def split: option.split)

lemma compare_lines_indent:
  "compare_lines S M (ind @ i) a b t = map ((@) ind) (compare_lines S M i a b t)"
  by (simp add: compare_lines_def Let_def slice_lines_indent map_lines_indent base_lines_indent)

subsection \<open>Inline map fields\<close>

text \<open>
  C1. The claim: for a field whose type is an inline map, the emitted comparison checks
  the entry counts and, for every key of the left map, that the right map has the key
  with an equal value, where the values are compared by the rule of the value type and
  not always by direct equality. The code emits the count check and the key check, but
  compares the values with \<^verbatim>\<open>v != v2\<close> whatever the value type is: the value type is
  matched and never read. For the field \<^verbatim>\<open>Limits map[string]resource.Quantity\<close> the
  per-key line is the direct comparison, while generate\_map\_equal, for a map alias
  with the same value type, calls the registered \<^verbatim>\<open>Equal\<close>.
\<close>

lemma map_lines_any_value_type:
  "match_map_type base_type = Some (key_type, val_type) \<Longrightarrow>
   map_lines indent a_val b_val base_type =
     [indent @ ''if len('' @ a_val @ '') != len('' @ b_val @ '') { return false }'',
      indent @ ''for k, v := range '' @ a_val @ '' {'',
      indent @ tab @ ''if v2, ok := '' @ b_val @ ''[k]; !ok || v != v2 { return false }'',
      indent @ ''}'']"
  by (simp add: map_lines_def ret_false_def)

theorem inline_map_values_compared_directly:
  "generate_equal_lines ''T'' [(''Limits'', ''map[string]resource.Quantity'')]
     [(''T'', [(''Limits'', ''map[string]resource.Quantity'')])] [] =
     [''func TEqual(a, b corev1.T) bool {'',
      tab @ ''if len(a.Limits) != len(b.Limits) { return false }'',
      tab @ ''for k, v := range a.Limits {'',
      tab @ tab @ ''if v2, ok := b.Limits[k]; !ok || v != v2 { return false }'',
      tab @ ''}'',
      tab @ ''return true'',
      ''}'']
   \<and> generate_map_equal_lines ''ResourceList'' ''ResourceName'' ''resource.Quantity'' =
     [''func ResourceListEqual(a, b corev1.ResourceList) bool {'',
      tab @ ''if len(a) != len(b) { return false }'',
      tab @ ''for k, v := range a {'',
      tab @ tab @ ''if v2, ok := b[k]; !ok || !v.Equal(v2) { return false }'',
      tab @ ''}'',
      tab @ ''return true'',
      ''}'']"
  by code_simp

subsection \<open>External types\<close>

text \<open>
  C2. The claim: a field whose base type is registered as external is compared with
  \<^verbatim>\<open>reflect.DeepEqual\<close> in every position: plain field, pointer field, slice element
  and slice-of-pointer element. The branch for slice-of-pointer elements has no case
  for the external types and falls to the direct comparison of the dereferenced
  elements; the three other positions call \<^verbatim>\<open>reflect.DeepEqual\<close>. Below, \<^verbatim>\<open>Sel\<close> is a
  slice of pointers and \<^verbatim>\<open>Refs\<close>, \<^verbatim>\<open>Meta\<close>, \<^verbatim>\<open>Ptr\<close> are the three other positions.
\<close>

lemma slice_ptr_elem_external:
  "elem_base \<in> set EXTERNAL_TYPES \<Longrightarrow> \<not> has_key S elem_base \<Longrightarrow>
   slice_ptr_elem S indent a_elem b_elem (''*'' @ elem_base) ! 2 =
     indent @ tab @ tab @ ''if *'' @ a_elem @ '' != *'' @ b_elem @ '' { return false }''"
  by (auto simp: slice_ptr_elem_def EXTERNAL_TYPES_def SPECIAL_TYPES_def ret_false_def)

theorem external_slice_of_pointers_compared_directly:
  "generate_equal_lines ''T''
     [(''Sel'', ''[]*metav1.LabelSelector''), (''Refs'', ''[]metav1.LabelSelector''),
      (''Meta'', ''metav1.LabelSelector''), (''Ptr'', ''*metav1.LabelSelector'')]
     [(''T'', [(''Sel'', ''[]*metav1.LabelSelector''), (''Refs'', ''[]metav1.LabelSelector''),
               (''Meta'', ''metav1.LabelSelector''), (''Ptr'', ''*metav1.LabelSelector'')])]
     [] =
     [''func TEqual(a, b corev1.T) bool {'',
      tab @ ''if len(a.Sel) != len(b.Sel) { return false }'',
      tab @ ''for i := range a.Sel {'',
      tab @ tab @ ''if (a.Sel[i] == nil) != (b.Sel[i] == nil) { return false }'',
      tab @ tab @ ''if a.Sel[i] != nil {'',
      tab @ tab @ tab @ ''if *a.Sel[i] != *b.Sel[i] { return false }'',
      tab @ tab @ ''}'',
      tab @ ''}'',
      tab @ ''if len(a.Refs) != len(b.Refs) { return false }'',
      tab @ ''for i := range a.Refs {'',
      tab @ tab @ ''if !reflect.DeepEqual(a.Refs[i], b.Refs[i]) { return false }'',
      tab @ ''}'',
      tab @ ''if !reflect.DeepEqual(a.Meta, b.Meta) { return false }'',
      tab @ ''if (a.Ptr == nil) != (b.Ptr == nil) { return false }'',
      tab @ ''if a.Ptr != nil {'',
      tab @ tab @ ''if !reflect.DeepEqual(*a.Ptr, *b.Ptr) { return false }'',
      tab @ ''}'',
      tab @ ''return true'',
      ''}'']"
  by code_simp

subsection \<open>Precedence of the classification\<close>

text \<open>
  C3. The claim: in every field position the base type is classified in the order
  generated struct or map alias, custom equality, natively comparable, external,
  default, and a name of an earlier class is never handled by a later one. The plain
  and the pointer position follow this order. The slice-element branches never look the
  element type up among the map aliases, so a slice of a map alias is compared by the
  default rule, although the closure visits the alias and its function is printed.
  Below \<^verbatim>\<open>One\<close> is a plain field of the alias \<^verbatim>\<open>ResourceList\<close> and \<^verbatim>\<open>Lists\<close>,
  \<^verbatim>\<open>Ptrs\<close> are slices of it.
\<close>

theorem slice_of_map_alias_compared_by_default:
  "generate_equal_lines ''T''
     [(''One'', ''ResourceList''), (''Lists'', ''[]ResourceList''), (''Ptrs'', ''[]*ResourceList'')]
     [(''T'', [(''One'', ''ResourceList''), (''Lists'', ''[]ResourceList''),
               (''Ptrs'', ''[]*ResourceList'')])]
     [(''ResourceList'', (''ResourceName'', ''resource.Quantity''))] =
     [''func TEqual(a, b corev1.T) bool {'',
      tab @ ''if !ResourceListEqual(a.One, b.One) { return false }'',
      tab @ ''if len(a.Lists) != len(b.Lists) { return false }'',
      tab @ ''for i := range a.Lists {'',
      tab @ tab @ ''if a.Lists[i] != b.Lists[i] { return false }'',
      tab @ ''}'',
      tab @ ''if len(a.Ptrs) != len(b.Ptrs) { return false }'',
      tab @ ''for i := range a.Ptrs {'',
      tab @ tab @ ''if (a.Ptrs[i] == nil) != (b.Ptrs[i] == nil) { return false }'',
      tab @ tab @ ''if a.Ptrs[i] != nil {'',
      tab @ tab @ tab @ ''if *a.Ptrs[i] != *b.Ptrs[i] { return false }'',
      tab @ tab @ ''}'',
      tab @ ''}'',
      tab @ ''return true'',
      ''}'']
   \<and> visitation_order
       [(''T'', [(''One'', ''ResourceList''), (''Lists'', ''[]ResourceList''),
                 (''Ptrs'', ''[]*ResourceList'')])]
       [(''ResourceList'', (''ResourceName'', ''resource.Quantity''))] ''T'' =
     [''T'', ''ResourceList'']"
  by code_simp

subsection \<open>Pointer fields\<close>

text \<open>
  For a field whose type has a leading star the generator emits the check that returns
  false when exactly one side is nil, then, guarded by the left side being non-nil, the
  lines a field without the star emits for the rest of the type, with the operand texts
  \<^verbatim>\<open>*a.f\<close> and \<^verbatim>\<open>*b.f\<close> put where \<^verbatim>\<open>a.f\<close> and \<^verbatim>\<open>b.f\<close> stand, one tab deeper.
\<close>

lemma pointer_field_lines:
  assumes "\<not> startswith t ''*''"
  shows "field_lines S M (f, ''*'' @ t) =
           [tab @ ''if (a.'' @ f @ '' == nil) != (b.'' @ f @ '' == nil) { return false }'',
            tab @ ''if a.'' @ f @ '' != nil {''] @
           map ((@) tab) (compare_lines S M tab (''*a.'' @ f) (''*b.'' @ f) t) @
           [tab @ ''}'']
         \<and> field_lines S M (f, t) = compare_lines S M tab (''a.'' @ f) (''b.'' @ f) t"
  using assms compare_lines_indent [of S M tab tab]
  by (simp add: field_lines_def startswith_def ret_false_def)

text \<open>
  C4. The claim: for a field with a leading star the emitted comparison returns false
  when exactly one side is nil, and when both sides are non-nil it compares the
  dereferenced values by the rules of a non-pointer field of the base type. The nil
  check is emitted. The comparison under it is built by pasting the text \<^verbatim>\<open>*a.f\<close> in
  front of what the rule appends, so the star does not stay on the field: for
  \<^verbatim>\<open>SizeLimit *resource.Quantity\<close> the line is \<^verbatim>\<open>if !*a.SizeLimit.Equal(*b.SizeLimit)\<close>,
  where the star stands before the whole call, and for a pointer to a slice or to a map
  the element and the lookup are \<^verbatim>\<open>*a.Cs[i]\<close> and \<^verbatim>\<open>*b.L[k]\<close>, where the star stands
  before the indexing. The branch for a slice of pointers, on \<^verbatim>\<open>Qs\<close> below, writes the
  receiver without the star and the argument with it.
\<close>

theorem pointer_field_star_before_call_and_index:
  "generate_equal_lines ''T''
     [(''SizeLimit'', ''*resource.Quantity''), (''Cs'', ''*[]Container''),
      (''L'', ''*map[string]string''), (''Qs'', ''[]*resource.Quantity'')]
     [(''T'', [(''SizeLimit'', ''*resource.Quantity''), (''Cs'', ''*[]Container''),
               (''L'', ''*map[string]string''), (''Qs'', ''[]*resource.Quantity'')]),
      (''Container'', [])]
     [] =
     [''func TEqual(a, b corev1.T) bool {'',
      tab @ ''if (a.SizeLimit == nil) != (b.SizeLimit == nil) { return false }'',
      tab @ ''if a.SizeLimit != nil {'',
      tab @ tab @ ''if !*a.SizeLimit.Equal(*b.SizeLimit) { return false }'',
      tab @ ''}'',
      tab @ ''if (a.Cs == nil) != (b.Cs == nil) { return false }'',
      tab @ ''if a.Cs != nil {'',
      tab @ tab @ ''if len(*a.Cs) != len(*b.Cs) { return false }'',
      tab @ tab @ ''for i := range *a.Cs {'',
      tab @ tab @ tab @ ''if !ContainerEqual(*a.Cs[i], *b.Cs[i]) { return false }'',
      tab @ tab @ ''}'',
      tab @ ''}'',
      tab @ ''if (a.L == nil) != (b.L == nil) { return false }'',
      tab @ ''if a.L != nil {'',
      tab @ tab @ ''if len(*a.L) != len(*b.L) { return false }'',
      tab @ tab @ ''for k, v := range *a.L {'',
      tab @ tab @ tab @ ''if v2, ok := *b.L[k]; !ok || v != v2 { return false }'',
      tab @ tab @ ''}'',
      tab @ ''}'',
      tab @ ''if len(a.Qs) != len(b.Qs) { return false }'',
      tab @ ''for i := range a.Qs {'',
      tab @ tab @ ''if (a.Qs[i] == nil) != (b.Qs[i] == nil) { return false }'',
      tab @ tab @ ''if a.Qs[i] != nil {'',
      tab @ tab @ tab @ ''if !a.Qs[i].Equal(*b.Qs[i]) { return false }'',
      tab @ tab @ ''}'',
      tab @ ''}'',
      tab @ ''return true'',
      ''}'']"
  by code_simp

section \<open>The closure over the referenced types\<close>

subsection \<open>What a visit appends to the queue\<close>

lemma has_key_iff: "has_key d k \<longleftrightarrow> k \<in> fst ` set d"
  by (simp add: has_key_def map_of_eq_None_iff)

lemma enqueue_fields_queue:
  "enqueue_fields S M seen fs q = q @ enqueue_fields S M seen fs []"
proof (induction fs arbitrary: q)
  case Nil
  show ?case by simp
next
  case (Cons f fs)
  obtain fname ftype where f: "f = (fname, ftype)" by (cases f)
  show ?case
    using Cons.IH [of "q @ [replace_star (replace_brackets ftype)]"] Cons.IH [of q]
      Cons.IH [of "[replace_star (replace_brackets ftype)]"]
    by (simp add: f Let_def)
qed

lemma enqueue_fields_seen:
  "enqueue_fields S M seen fs [] = filter (\<lambda>b. b \<notin> seen) (enqueue_fields S M {} fs [])"
proof (induction fs)
  case Nil
  show ?case by simp
next
  case (Cons f fs)
  obtain fname ftype where f: "f = (fname, ftype)" by (cases f)
  show ?case
    using Cons.IH
      enqueue_fields_queue [of S M seen fs "[replace_star (replace_brackets ftype)]"]
      enqueue_fields_queue [of S M "{}" fs "[replace_star (replace_brackets ftype)]"]
    by (simp add: f Let_def)
qed

lemma enqueue_refs_references:
  "enqueue_refs S M n seen q = q @ filter (\<lambda>b. b \<notin> seen) (references S M n)"
  using enqueue_fields_queue [of S M seen _ q] enqueue_fields_seen [of S M seen]
  by (simp add: enqueue_refs_def references_def Let_def split: option.split)

lemma enqueue_fields_defined:
  "b \<in> set (enqueue_fields S M {} fs []) \<Longrightarrow> has_key S b \<or> has_key M b"
proof (induction fs)
  case Nil
  then show ?case by simp
next
  case (Cons f fs)
  obtain fname ftype where f: "f = (fname, ftype)" by (cases f)
  show ?case
    using Cons enqueue_fields_queue [of S M "{}" fs "[replace_star (replace_brackets ftype)]"]
    by (auto simp: f Let_def split: if_splits)
qed

lemma references_defined:
  "b \<in> set (references S M n) \<Longrightarrow> has_key S b \<or> has_key M b"
  using enqueue_fields_defined [of b S M]
  by (auto simp: references_def enqueue_refs_def Let_def split: option.splits if_splits)


subsection \<open>The loop and its rounds\<close>

lemma loop_body_pop_seen:
  "n \<in> seen \<Longrightarrow> loop_body S M (n # rest, seen, ordered) = (rest, seen, ordered)"
  by (simp add: loop_body_def)

lemma loop_body_pop_new:
  "n \<notin> seen \<Longrightarrow> loop_body S M (n # rest, seen, ordered) =
     (rest @ filter (\<lambda>b. b \<noteq> n \<and> b \<notin> seen) (references S M n), insert n seen, ordered @ [n])"
  by (simp add: loop_body_def enqueue_refs_references)

lemma loop_body_empty: "loop_body S M ([], seen, ordered) = ([], seen, ordered)"
  by (simp add: loop_body_def)

lemma bfs_loop_unfold:
  "queue \<noteq> [] \<Longrightarrow>
   bfs_loop S M (queue, seen, ordered) = bfs_loop S M (loop_body S M (queue, seen, ordered))"
  by (subst bfs_loop.simps) simp

lemma bfs_loop_invariant:
  "P st \<Longrightarrow> (\<And>st. P st \<Longrightarrow> fst st \<noteq> [] \<Longrightarrow> P (loop_body S M st)) \<Longrightarrow>
   P (bfs_loop S M st) \<and> fst (bfs_loop S M st) = []"
proof (induction S M st rule: bfs_loop.induct)
  case (1 S M queue seen ordered)
  show ?case
  proof (cases "queue = []")
    case True
    then show ?thesis using "1.prems"(1) by simp
  next
    case False
    have "P (loop_body S M (queue, seen, ordered))"
      using "1.prems"(2) [OF "1.prems"(1)] False by simp
    then show ?thesis
      using "1.IH" [OF False _ "1.prems"(2)] bfs_loop_unfold [OF False] by simp
  qed
qed

lemma funpow_invariant:
  "P st \<Longrightarrow> (\<And>st. P st \<Longrightarrow> P (f st)) \<Longrightarrow> P ((f ^^ k) st)"
  by (induction k) simp_all

lemma bfs_loop_rounds: "\<exists>k. (loop_body S M ^^ k) st = bfs_loop S M st"
proof (induction S M st rule: bfs_loop.induct)
  case (1 S M queue seen ordered)
  show ?case
  proof (cases "queue = []")
    case True
    have "(loop_body S M ^^ 0) (queue, seen, ordered) = bfs_loop S M (queue, seen, ordered)"
      using True by simp
    then show ?thesis by blast
  next
    case False
    obtain k where "(loop_body S M ^^ k) (loop_body S M (queue, seen, ordered)) =
        bfs_loop S M (loop_body S M (queue, seen, ordered))"
      using "1.IH" [OF False] by blast
    then have "(loop_body S M ^^ Suc k) (queue, seen, ordered) = bfs_loop S M (queue, seen, ordered)"
      using bfs_loop_unfold [OF False] by (simp add: funpow_swap1)
    then show ?thesis by blast
  qed
qed

subsection \<open>Lists without repetitions\<close>

lemma first_occurrences_set [simp]: "set (first_occurrences xs) = set xs"
  by (induction xs) auto

lemma first_occurrences_distinct [simp]: "distinct (first_occurrences xs)"
  by (induction xs) auto

lemma first_occurrences_append:
  "first_occurrences (xs @ ys) =
     first_occurrences xs @ filter (\<lambda>y. y \<notin> set xs) (first_occurrences ys)"
proof (induction xs)
  case Nil
  show ?case by simp
next
  case (Cons x xs)
  have "filter (\<lambda>y. y \<noteq> x) (filter (\<lambda>y. y \<notin> set xs) (first_occurrences ys)) =
          filter (\<lambda>y. y \<notin> set (x # xs)) (first_occurrences ys)"
    by (auto intro: filter_cong)
  then show ?case
    using Cons.IH by simp
qed

lemma first_occurrences_id: "distinct xs \<Longrightarrow> first_occurrences xs = xs"
proof (induction xs)
  case Nil
  show ?case by simp
next
  case (Cons x xs)
  then have "filter (\<lambda>y. y \<noteq> x) xs = xs"
    by (auto intro: filter_True)
  then show ?case
    using Cons by simp
qed

lemma first_occurrences_filter:
  "filter P (first_occurrences xs) = first_occurrences (filter P xs)"
proof (induction xs)
  case Nil
  show ?case by simp
next
  case (Cons x xs)
  show ?case
  proof (cases "P x")
    case True
    have "filter P (filter (\<lambda>y. y \<noteq> x) (first_occurrences xs)) =
            filter (\<lambda>y. y \<noteq> x) (filter P (first_occurrences xs))"
      by (auto intro: filter_cong)
    then show ?thesis
      using True Cons.IH by simp
  next
    case False
    have "filter P (filter (\<lambda>y. y \<noteq> x) (first_occurrences xs)) =
            filter P (first_occurrences xs)"
      using False by (auto intro: filter_cong)
    then show ?thesis
      using False Cons.IH by simp
  qed
qed

lemma first_occurrences_drop_known:
  assumes "set ks \<subseteq> set xs"
  shows "first_occurrences (xs @ filter (\<lambda>y. y \<notin> set ks) ys) = first_occurrences (xs @ ys)"
proof -
  have "filter (\<lambda>y. y \<notin> set xs) (filter (\<lambda>y. y \<notin> set ks) (first_occurrences ys)) =
          filter (\<lambda>y. y \<notin> set xs) (first_occurrences ys)"
    using assms by (auto intro: filter_cong)
  then show ?thesis
    by (simp add: first_occurrences_append first_occurrences_filter [symmetric])
qed

lemma first_occurrences_cong_prefix:
  assumes "first_occurrences xs = first_occurrences ys"
  shows "first_occurrences (xs @ zs) = first_occurrences (ys @ zs)"
proof -
  have "set xs = set ys"
    using assms first_occurrences_set by metis
  then show ?thesis
    using assms by (simp add: first_occurrences_append)
qed

lemma first_occurrences_pop_seen:
  assumes "n \<in> set xs"
  shows "first_occurrences (xs @ n # ys) = first_occurrences (xs @ ys)"
proof -
  have "filter (\<lambda>y. y \<notin> set xs) (filter (\<lambda>y. y \<noteq> n) (first_occurrences ys)) =
          filter (\<lambda>y. y \<notin> set xs) (first_occurrences ys)"
    using assms by (auto intro: filter_cong)
  then show ?thesis
    using assms by (simp add: first_occurrences_append)
qed


subsection \<open>Invariants of the loop\<close>

lemma discovery_step:
  assumes "seen = set ordered" and "distinct ordered"
    and "first_occurrences (X @ concat (map (references S M) ordered)) =
           first_occurrences (ordered @ queue)"
  shows "case loop_body S M (queue, seen, ordered) of (q', s', o') \<Rightarrow>
           s' = set o' \<and> distinct o' \<and>
           first_occurrences (X @ concat (map (references S M) o')) = first_occurrences (o' @ q')"
proof (cases queue)
  case Nil
  then show ?thesis
    using assms by (simp add: loop_body_empty)
next
  case (Cons n rest)
  show ?thesis
  proof (cases "n \<in> seen")
    case True
    then show ?thesis
      using assms Cons first_occurrences_pop_seen [of n ordered rest]
      by (simp add: loop_body_pop_seen)
  next
    case False
    let ?r = "references S M n"
    have l: "first_occurrences ((X @ concat (map (references S M) ordered)) @ ?r) =
               first_occurrences ((ordered @ n # rest) @ ?r)"
      using assms(3) Cons by (intro first_occurrences_cong_prefix) simp
    have "filter (\<lambda>b. b \<noteq> n \<and> b \<notin> seen) ?r = filter (\<lambda>b. b \<notin> set (ordered @ [n])) ?r"
      using assms(1) by (auto intro: filter_cong)
    moreover have "first_occurrences ((ordered @ n # rest) @ filter (\<lambda>b. b \<notin> set (ordered @ [n])) ?r) =
            first_occurrences ((ordered @ n # rest) @ ?r)"
      by (intro first_occurrences_drop_known) auto
    ultimately have r: "first_occurrences ((ordered @ [n]) @ rest @ filter (\<lambda>b. b \<noteq> n \<and> b \<notin> seen) ?r) =
            first_occurrences ((ordered @ n # rest) @ ?r)"
      by simp
    show ?thesis
      using False assms(1,2) Cons l r by (simp add: loop_body_pop_new)
  qed
qed

lemma bfs_loop_discovery:
  "case bfs_loop S M ([root], {}, []) of (q, s, ordered) \<Rightarrow>
     q = [] \<and> s = set ordered \<and> distinct ordered \<and>
     ordered = first_occurrences (root # concat (map (references S M) ordered))"
proof -
  let ?P = "\<lambda>st. case st of (q, s, ordered) \<Rightarrow>
     s = set ordered \<and> distinct ordered \<and>
     first_occurrences ([root] @ concat (map (references S M) ordered)) =
       first_occurrences (ordered @ q)"
  have init: "?P ([root], {}, [])"
    by simp
  have step: "?P (loop_body S M st)" if "?P st" for st
  proof -
    obtain queue seen ordered where st: "st = (queue, seen, ordered)"
      by (cases st)
    show ?thesis
      using that discovery_step [where seen = seen and ordered = ordered and X = "[root]" and S = S and M = M and queue = queue] by (simp add: st)
  qed
  have "?P (bfs_loop S M ([root], {}, [])) \<and> fst (bfs_loop S M ([root], {}, [])) = []"
    using init step by (rule bfs_loop_invariant)
  then show ?thesis
    by (auto simp: first_occurrences_id split: prod.splits)
qed

lemma visitation_order_discovery:
  "distinct (visitation_order S M root) \<and>
   visitation_order S M root =
     first_occurrences (root # concat (map (references S M) (visitation_order S M root)))"
  using bfs_loop_discovery [where S = S and M = M and root = root]
  by (simp add: visitation_order_def split: prod.splits)

lemma defined_step:
  assumes "\<forall>n \<in> set queue \<union> set ordered. n = root \<or> has_key S n \<or> has_key M n"
  shows "case loop_body S M (queue, seen, ordered) of (q', s', o') \<Rightarrow>
           \<forall>n \<in> set q' \<union> set o'. n = root \<or> has_key S n \<or> has_key M n"
proof (cases queue)
  case Nil
  then show ?thesis
    using assms by (simp add: loop_body_empty)
next
  case (Cons n rest)
  show ?thesis
  proof (cases "n \<in> seen")
    case True
    then show ?thesis
      using assms Cons by (simp add: loop_body_pop_seen)
  next
    case False
    then show ?thesis
      using assms Cons references_defined [of _ S M n]
      by (auto simp: loop_body_pop_new)
  qed
qed

lemma bfs_loop_defined:
  "case bfs_loop S M ([root], {}, []) of (q, s, ordered) \<Rightarrow>
     \<forall>n \<in> set q \<union> set ordered. n = root \<or> has_key S n \<or> has_key M n"
proof -
  let ?P = "\<lambda>st. case st of (q, s, ordered) \<Rightarrow>
     \<forall>n \<in> set q \<union> set ordered. n = root \<or> has_key S n \<or> has_key M n"
  have init: "?P ([root], {}, [])"
    by simp
  have step: "?P (loop_body S M st)" if "?P st" for st
  proof -
    obtain queue seen ordered where st: "st = (queue, seen, ordered)"
      by (cases st)
    show ?thesis
      using that defined_step [where queue = queue and ordered = ordered and root = root and S = S and M = M and seen = seen] by (simp add: st)
  qed
  have "?P (bfs_loop S M ([root], {}, [])) \<and> fst (bfs_loop S M ([root], {}, [])) = []"
    using init step by (rule bfs_loop_invariant)
  then show ?thesis
    by simp
qed

lemma rounds_defined:
  "case (loop_body S M ^^ k) ([root], {}, []) of (q, s, ordered) \<Rightarrow>
     \<forall>n \<in> set q \<union> set ordered. n = root \<or> has_key S n \<or> has_key M n"
proof -
  let ?P = "\<lambda>st. case st of (q, s, ordered) \<Rightarrow>
     \<forall>n \<in> set q \<union> set ordered. n = root \<or> has_key S n \<or> has_key M n"
  have init: "?P ([root], {}, [])"
    by simp
  have step: "?P (loop_body S M st)" if "?P st" for st
  proof -
    obtain queue seen ordered where st: "st = (queue, seen, ordered)"
      by (cases st)
    show ?thesis
      using that defined_step [where queue = queue and ordered = ordered and root = root and S = S and M = M and seen = seen] by (simp add: st)
  qed
  show ?thesis
    using init step by (rule funpow_invariant)
qed

lemma visitation_order_defined:
  "n \<in> set (visitation_order S M root) \<Longrightarrow> n = root \<or> has_key S n \<or> has_key M n"
  using bfs_loop_defined [where S = S and M = M and root = root]
  by (auto simp: visitation_order_def split: prod.splits)

lemma visitation_order_length:
  "length (visitation_order S M root) \<le> Suc (length S + length M)"
proof -
  let ?o = "visitation_order S M root"
  let ?K = "fst ` set S \<union> fst ` set M"
  have "set ?o \<subseteq> insert root ?K"
    using visitation_order_defined [of _ S M root] by (auto simp: has_key_iff)
  then have "card (set ?o) \<le> card (insert root ?K)"
    by (intro card_mono) auto
  also have "\<dots> \<le> Suc (card ?K)"
    by (simp add: card_insert_if)
  also have "card ?K \<le> card (fst ` set S) + card (fst ` set M)"
    by (rule card_Un_le)
  also have "card (fst ` set S) \<le> length S"
    by (metis card_image_le card_length le_trans List.finite_set)
  also have "card (fst ` set M) \<le> length M"
    by (metis card_image_le card_length le_trans List.finite_set)
  finally show ?thesis
    using visitation_order_discovery [of S M root] by (simp add: distinct_card)
qed

lemma visitation_order_rounds:
  "\<exists>k. (loop_body S M ^^ k) ([root], {}, []) =
         ([], set (visitation_order S M root), visitation_order S M root)"
proof -
  obtain k where k: "(loop_body S M ^^ k) ([root], {}, []) = bfs_loop S M ([root], {}, [])"
    using bfs_loop_rounds by blast
  have "bfs_loop S M ([root], {}, []) =
          ([], set (visitation_order S M root), visitation_order S M root)"
    using bfs_loop_discovery [where S = S and M = M and root = root]
    by (auto simp: visitation_order_def split: prod.splits)
  then show ?thesis
    using k by metis
qed

lemma seen_step:
  assumes "seen = set ordered" and "distinct ordered"
  shows "case loop_body S M (queue, seen, ordered) of (q', s', o') \<Rightarrow>
           s' = set o' \<and> distinct o'"
proof (cases queue)
  case Nil
  then show ?thesis
    using assms by (simp add: loop_body_empty)
next
  case (Cons n rest)
  then show ?thesis
    using assms by (cases "n \<in> seen") (simp_all add: loop_body_pop_seen loop_body_pop_new)
qed

lemma rounds_seen:
  "case (loop_body S M ^^ k) ([root], {}, []) of (q, s, ordered) \<Rightarrow>
     s = set ordered \<and> distinct ordered"
proof -
  let ?P = "\<lambda>st. case st of (q, s, ordered) \<Rightarrow> s = set ordered \<and> distinct ordered"
  have init: "?P ([root], {}, [])"
    by simp
  have step: "?P (loop_body S M st)" if "?P st" for st
  proof -
    obtain queue seen ordered where st: "st = (queue, seen, ordered)"
      by (cases st)
    show ?thesis
      using that seen_step [where queue = queue and seen = seen and ordered = ordered and S = S and M = M]
      by (simp add: st)
  qed
  show ?thesis
    using init step by (rule funpow_invariant)
qed

lemma loop_body_enqueues_unseen:
  "case loop_body S M (queue, seen, ordered) of (q', s', o') \<Rightarrow>
     \<exists>new. q' = tl queue @ new \<and> set new \<inter> s' = {}"
proof (cases queue)
  case Nil
  then show ?thesis
    by (simp add: loop_body_empty)
next
  case (Cons n rest)
  show ?thesis
  proof (cases "n \<in> seen")
    case True
    then show ?thesis
      using Cons by (simp add: loop_body_pop_seen)
  next
    case False
    then show ?thesis
      using Cons by (auto simp: loop_body_pop_new)
  qed
qed


section \<open>The printed functions\<close>

lemma emit_loop_concat: "emit_loop S M xs = concat (map (emit_one S M) xs)"
  by (induction xs) simp_all

lemma join_lines_Cons: "ls \<noteq> [] \<Longrightarrow> join_lines (l # ls) = l @ CHR ''\<newline>'' # join_lines ls"
  by (cases ls) simp_all

lemma generate_equal_method_header:
  "generate_equal_method n fs S M =
     equal_header n @ CHR ''\<newline>'' #
       join_lines (concat (map (field_lines S M) fs) @ [tab @ ''return true'', ''}''])"
  by (simp add: generate_equal_method_def generate_equal_lines_def equal_header_def join_lines_Cons)

lemma generate_map_equal_header:
  "generate_map_equal n k v =
     equal_header n @ CHR ''\<newline>'' # join_lines (tl (generate_map_equal_lines n k v))"
  by (simp add: generate_map_equal_def generate_map_equal_lines_def equal_header_def)

lemma word_then_paren:
  assumes "list_all is_word n"
  shows "takeWhile is_word (n @ ''Equal('' @ z) = n @ ''Equal''"
proof -
  have "takeWhile is_word (''Equal('' @ z) = ''Equal''"
    by (simp add: is_word_def)
  then show ?thesis
    using assms by (simp add: takeWhile_append2 list_all_iff)
qed

lemma header_prefix_iff:
  assumes "list_all is_word n" and "list_all is_word T"
  shows "startswith (equal_header n @ r) (''func '' @ T @ ''Equal('') \<longleftrightarrow> n = T"
proof
  assume "startswith (equal_header n @ r) (''func '' @ T @ ''Equal('')"
  then have "take (length (T @ ''Equal('')) (n @ ''Equal('' @ ''a, b corev1.'' @ n @ '') bool {'' @ r) = T @ ''Equal(''"
    by (simp add: startswith_def equal_header_def)
  then have "\<exists>w. n @ ''Equal('' @ ''a, b corev1.'' @ n @ '') bool {'' @ r = T @ ''Equal('' @ w"
    by (metis append_take_drop_id append.assoc)
  then obtain w where "n @ ''Equal('' @ (''a, b corev1.'' @ n @ '') bool {'' @ r) = T @ ''Equal('' @ w"
    by auto
  then have "takeWhile is_word (n @ ''Equal('' @ (''a, b corev1.'' @ n @ '') bool {'' @ r)) =
               takeWhile is_word (T @ ''Equal('' @ w)"
    by simp
  then have "n @ ''Equal'' = T @ ''Equal''"
    using assms by (simp only: word_then_paren)
  then show "n = T"
    by simp
next
  assume "n = T"
  then show "startswith (equal_header n @ r) (''func '' @ T @ ''Equal('')"
    by (simp add: startswith_def equal_header_def)
qed

lemma word_names_key:
  "word_names S M \<Longrightarrow> has_key S n \<or> has_key M n \<Longrightarrow> list_all is_word n"
  by (auto simp: word_names_def has_key_iff list_all_iff)

lemma functions_for_emit_one:
  assumes "word_names S M" and "list_all is_word T"
  shows "functions_for T (emit_one S M n) =
           (if n = T \<and> (has_key S n \<or> has_key M n) then [hd (emit_one S M n)] else [])"
proof (cases "has_key S n \<or> has_key M n")
  case False
  then show ?thesis
    by (auto simp: emit_one_def has_key_def functions_for_def split: option.splits)
next
  case True
  then have w: "list_all is_word n"
    using assms(1) word_names_key by blast
  have e: "\<not> startswith [] (''func '' @ T @ ''Equal('')"
    by (simp add: startswith_def)
  show ?thesis
    using True header_prefix_iff [OF w assms(2)] e
    by (auto simp: emit_one_def has_key_def functions_for_def generate_equal_method_header
        generate_map_equal_header split: option.splits)
qed

lemma concat_single_hit:
  "distinct xs \<Longrightarrow> T \<in> set xs \<Longrightarrow> concat (map (\<lambda>n. if n = T then f n else []) xs) = f T"
proof (induction xs)
  case Nil
  then show ?case by simp
next
  case (Cons x xs)
  have miss: "T \<notin> set ys \<Longrightarrow> concat (map (\<lambda>n. if n = T then f n else []) ys) = []" for ys
    by (induction ys) auto
  show ?case
    using Cons miss [of xs] by auto
qed

lemma functions_for_emit_loop:
  assumes "word_names S M" and "distinct xs" and "T \<in> set xs" and "has_key S T \<or> has_key M T"
  shows "functions_for T (emit_loop S M xs) = [hd (emit_one S M T)]"
proof -
  have w: "list_all is_word T"
    using assms(1,4) word_names_key by blast
  have "functions_for T (emit_loop S M xs) =
          concat (map (\<lambda>n. functions_for T (emit_one S M n)) xs)"
    by (simp add: emit_loop_concat functions_for_def filter_concat comp_def)
  also have "\<dots> = concat (map (\<lambda>n. if n = T then [hd (emit_one S M T)] else []) xs)"
    using assms(4) by (intro arg_cong [where f = concat] map_cong)
      (auto simp: functions_for_emit_one [OF assms(1) w])
  also have "\<dots> = [hd (emit_one S M T)]"
    using assms(2,3) by (rule concat_single_hit)
  finally show ?thesis .
qed


subsection \<open>The names the parser declares\<close>

lemma word1_word: "word1 s = Some (w, r) \<Longrightarrow> list_all is_word w"
  by (auto simp: word1_def list_all_iff split: if_splits dest: set_takeWhileD)

lemma type_name_word: "type_name line = Some (name, r) \<Longrightarrow> list_all is_word name"
  by (auto simp: type_name_def split: if_splits option.splits dest: word1_word)

lemma map_type_re_word: "map_type_re line = Some (name, k, v) \<Longrightarrow> list_all is_word name"
  by (auto simp: map_type_re_def split: option.splits dest: type_name_word)

lemma struct_start_re_word: "struct_start_re line = Some name \<Longrightarrow> list_all is_word name"
  by (auto simp: struct_start_re_def split: option.splits if_splits dest: type_name_word)

lemma word_names_iff:
  "word_names S M \<longleftrightarrow> (\<forall>n \<in> fst ` set S \<union> fst ` set M. list_all is_word n)"
  by (auto simp: word_names_def list_all_iff)

lemma word_names_update_structs:
  "word_names S M \<Longrightarrow> list_all is_word k \<Longrightarrow> word_names (AList.update k v S) M"
  by (simp add: word_names_iff dom_update)

lemma word_names_update_maps:
  "word_names S M \<Longrightarrow> list_all is_word k \<Longrightarrow> word_names S (AList.update k v M)"
  by (simp add: word_names_iff dom_update)

lemma word_names_map_entry:
  "word_names S M \<Longrightarrow> word_names (AList.map_entry k f S) M"
  by (simp add: word_names_iff dom_map_entry)

lemma parse_line_word_names:
  assumes "word_names S M" and "parse_line line (S, M, cs) = (S', M', cs')"
  shows "word_names S' M'"
proof (cases "map_type_re line")
  case (Some m)
  obtain name k v where m: "m = (name, k, v)" by (cases m)
  show ?thesis
    using assms Some map_type_re_word [of line name k v] word_names_update_maps [OF assms(1)]
    by (auto simp: parse_line_def m)
next
  case None
  show ?thesis
  proof (cases "struct_start_re line")
    case (Some name)
    show ?thesis
      using assms None Some struct_start_re_word [of line name]
        word_names_update_structs [OF assms(1)]
      by (auto simp: parse_line_def)
  next
    case no_start: None
    show ?thesis
      using assms None no_start word_names_map_entry [OF assms(1)]
      by (auto simp: parse_line_def split: option.splits if_splits)
  qed
qed

lemma fold_parse_line_word_names:
  "word_names (fst st) (fst (snd st)) \<Longrightarrow>
   word_names (fst (fold parse_line ls st)) (fst (snd (fold parse_line ls st)))"
proof (induction ls arbitrary: st)
  case Nil
  then show ?case by simp
next
  case (Cons l ls)
  obtain S M cs where st: "st = (S, M, cs)" by (cases st)
  obtain S' M' cs' where p: "parse_line l (S, M, cs) = (S', M', cs')" by (cases "parse_line l (S, M, cs)")
  have "word_names S' M'"
    using Cons.prems p parse_line_word_names by (simp add: st)
  then show ?case
    using Cons.IH [of "(S', M', cs')"] by (simp add: st p)
qed

lemma parse_types_word_names: "parse_types content = (S, M) \<Longrightarrow> word_names S M"
  using fold_parse_line_word_names [of "([], [], None)" "split_newline content"]
  by (auto simp: parse_types_def word_names_def split: prod.splits)

lemma word_not_newline: "is_word c \<Longrightarrow> c \<noteq> CHR ''\<newline>''"
  by (auto simp: is_word_def)

lemma first_line_header:
  assumes "list_all is_word n"
  shows "first_line (equal_header n @ CHR ''\<newline>'' # r) = equal_header n"
proof -
  have "\<forall>c \<in> set (equal_header n). c \<noteq> CHR ''\<newline>''"
    using assms word_not_newline by (auto simp: equal_header_def list_all_iff)
  then show ?thesis
    by (simp add: first_line_def takeWhile_append2)
qed

lemma func_lines_emit_one:
  assumes "word_names S M"
  shows "map first_line (filter (\<lambda>p. startswith p ''func '') (emit_one S M n)) =
           (if has_key S n \<or> has_key M n then [equal_header n] else [])"
proof (cases "has_key S n \<or> has_key M n")
  case False
  then show ?thesis
    by (auto simp: emit_one_def has_key_def split: option.splits)
next
  case True
  then have w: "list_all is_word n"
    using assms word_names_key by blast
  have s: "startswith (equal_header n @ r) ''func ''" for r
    by (simp add: startswith_def equal_header_def)
  have e: "\<not> startswith [] ''func ''"
    by (simp add: startswith_def)
  show ?thesis
    using True first_line_header [OF w] s e
    by (auto simp: emit_one_def has_key_def generate_equal_method_header
        generate_map_equal_header split: option.splits)
qed

lemma func_lines_emit_loop:
  assumes "word_names S M"
  shows "map first_line (filter (\<lambda>p. startswith p ''func '') (emit_loop S M xs)) =
           map equal_header (filter (\<lambda>n. has_key S n \<or> has_key M n) xs)"
  using func_lines_emit_one [OF assms] by (induction xs) simp_all

lemma header_lines_no_func: "filter (\<lambda>p. startswith p ''func '') header_lines = []"
  by (simp add: header_lines_def startswith_def tab_def)

section \<open>Properties of the closure and of the output\<close>

subsection \<open>Termination, order and one function per visited type\<close>

text \<open>
  C5. For every registry, also one where a struct refers to itself directly or through
  a slice, and every root name, the loop ends: after some number of rounds the queue is
  empty, and the visitation order holds at most one name more than the registry
  declares. Each name occurs once in the visitation order, and the order is the order
  of first discovery: it is the list of the root followed by the references of the
  visited names, in visiting order, with every repetition removed. For a declared type
  \<open>T\<close> that is visited, so in particular for a struct that refers to itself, exactly one
  of the printed texts is the equality function of \<open>T\<close>. The declared names are word
  names, which holds for every registry the parser returns (lemma
  \<open>parse_types_word_names\<close>).
\<close>

theorem closure_ends_distinct_first_discovered_one_function:
  assumes "word_names S M"
    and "T \<in> set (visitation_order S M root)"
    and "has_key S T \<or> has_key M T"
  shows "(\<exists>k. (loop_body S M ^^ k) ([root], {}, []) =
              ([], set (visitation_order S M root), visitation_order S M root))
       \<and> length (visitation_order S M root) \<le> Suc (length S + length M)
       \<and> distinct (visitation_order S M root)
       \<and> visitation_order S M root =
           first_occurrences
             (root # concat (map (references S M) (visitation_order S M root)))
       \<and> length (functions_for T (emit_loop S M (visitation_order S M root))) = 1"
  using visitation_order_rounds [of S M root] visitation_order_discovery [of S M root]
    visitation_order_length [of S M root] functions_for_emit_loop [OF assms(1) _ assms(2,3)]
  by simp

theorem closure_ends_distinct_first_discovered_one_function_witness:
  "word_names [(''Node'', [(''Next'', ''*Node''), (''Kids'', ''[]Node'')])] []
   \<and> ''Node'' \<in> set (visitation_order
                       [(''Node'', [(''Next'', ''*Node''), (''Kids'', ''[]Node'')])] [] ''Node'')
   \<and> (has_key [(''Node'', [(''Next'', ''*Node''), (''Kids'', ''[]Node'')])] ''Node''
        \<or> has_key ([] :: maps) ''Node'')
   \<and> references [(''Node'', [(''Next'', ''*Node''), (''Kids'', ''[]Node'')])] [] ''Node'' =
       [''Node'', ''Node'']
   \<and> visitation_order [(''Node'', [(''Next'', ''*Node''), (''Kids'', ''[]Node'')])] [] ''Node'' =
       [''Node'']
   \<and> length (functions_for ''Node''
        (emit_loop [(''Node'', [(''Next'', ''*Node''), (''Kids'', ''[]Node'')])] []
          (visitation_order [(''Node'', [(''Next'', ''*Node''), (''Kids'', ''[]Node'')])] []
             ''Node''))) = 1"
proof -
  let ?S = "[(''Node'', [(''Next'', ''*Node''), (''Kids'', ''[]Node'')])]"
  have w: "word_names ?S []"
    by code_simp
  have v: "visitation_order ?S [] ''Node'' = [''Node'']"
    by code_simp
  have t: "''Node'' \<in> set (visitation_order ?S [] ''Node'')"
    by (simp add: v)
  have k: "has_key ?S ''Node'' \<or> has_key ([] :: maps) ''Node''"
    by (simp add: has_key_def)
  have r: "references ?S [] ''Node'' = [''Node'', ''Node'']"
    by code_simp
  have "length (functions_for ''Node'' (emit_loop ?S [] (visitation_order ?S [] ''Node''))) = 1"
    using closure_ends_distinct_first_discovered_one_function [OF w t k] by blast
  then show ?thesis
    using w t k r v by simp
qed

subsection \<open>Repeated names in the queue\<close>

text \<open>
  C6. The claim: a name is enqueued at most once before it is marked seen, so the queue
  never holds the same unseen name twice. The test before an append reads the seen set,
  not the queue, so a struct with two fields of the same unseen type enqueues that type
  twice: after the first round from the root \<^verbatim>\<open>A\<close> below, the queue is \<^verbatim>\<open>[B, B]\<close> and
  \<^verbatim>\<open>B\<close> is not seen.
\<close>

theorem queue_holds_unseen_name_twice:
  "loop_body [(''A'', [(''x'', ''B''), (''y'', ''B'')]), (''B'', [])] [] ([''A''], {}, []) =
     ([''B'', ''B''], {''A''}, [''A''])
   \<and> \<not> unseen_once
        (loop_body [(''A'', [(''x'', ''B''), (''y'', ''B'')]), (''B'', [])] [] ([''A''], {}, []))"
  by code_simp

text \<open>
  C6, as the code has it. After any number of rounds the seen set is the set of the
  names in the visitation order and no name occurs twice in that order: a name is
  marked seen and appended once, and a popped name that is already seen is skipped. A
  round appends to the rest of the queue only names that are not seen after the round;
  the same unseen name may be appended more than once.
\<close>

theorem names_marked_seen_once_enqueued_while_unseen:
  "case (loop_body S M ^^ k) ([root], {}, []) of (queue, seen, ordered) \<Rightarrow>
     seen = set ordered \<and> distinct ordered \<and>
     (case loop_body S M (queue, seen, ordered) of (queue', seen', ordered') \<Rightarrow>
        \<exists>new. queue' = tl queue @ new \<and> set new \<inter> seen' = {})"
  using rounds_seen [where S = S and M = M and k = k and root = root]
    loop_body_enqueues_unseen [where S = S and M = M]
  by (auto split: prod.splits)

subsection \<open>The Pod scenario\<close>

text \<open>
  C7. For the text that declares \<^verbatim>\<open>Pod\<close> with the fields \<^verbatim>\<open>Name string\<close>,
  \<^verbatim>\<open>Labels map[string]string\<close> and \<^verbatim>\<open>Owner *Pod\<close>, one field per line, and the root
  \<^verbatim>\<open>Pod\<close>: the parser returns the three fields, the visitation order is \<^verbatim>\<open>[Pod]\<close>, and
  the one printed function compares \<^verbatim>\<open>Name\<close> by direct equality, \<^verbatim>\<open>Labels\<close> by the
  count check and the comparison per key, and \<^verbatim>\<open>Owner\<close> by the nil check and the call
  of \<^verbatim>\<open>PodEqual\<close> on the dereferenced values.
\<close>

theorem pod_scenario:
  "parse_types pod_text =
     ([(''Pod'', [(''Name'', ''string''), (''Labels'', ''map[string]string''),
                  (''Owner'', ''*Pod'')])], [])
   \<and> visitation_order (fst (parse_types pod_text)) (snd (parse_types pod_text)) ''Pod'' = [''Pod'']
   \<and> generate ''Pod'' pod_text =
       header_lines @
       [join_lines
          [''func PodEqual(a, b corev1.Pod) bool {'',
           tab @ ''if a.Name != b.Name { return false }'',
           tab @ ''if len(a.Labels) != len(b.Labels) { return false }'',
           tab @ ''for k, v := range a.Labels {'',
           tab @ tab @ ''if v2, ok := b.Labels[k]; !ok || v != v2 { return false }'',
           tab @ ''}'',
           tab @ ''if (a.Owner == nil) != (b.Owner == nil) { return false }'',
           tab @ ''if a.Owner != nil {'',
           tab @ tab @ ''if !PodEqual(*a.Owner, *b.Owner) { return false }'',
           tab @ ''}'',
           tab @ ''return true'',
           ''}''],
        []]"
  by code_simp

text \<open>
  The parser reads fields from the lines after the opening line only. When the whole
  declaration stands on one line, the opening pattern matches it, no field is read and
  the function compares nothing.
\<close>

lemma pod_on_one_line:
  "generate ''Pod'' ''type Pod struct { Name string; Labels map[string]string; Owner *Pod }'' =
     header_lines @
     [join_lines [''func PodEqual(a, b corev1.Pod) bool {'', tab @ ''return true'', ''}''], []]"
  by code_simp

subsection \<open>Determinism and the order of the output\<close>

text \<open>
  C8. The output is a function of the text and the root name (the three tables are
  constants of the script): two runs on the same text and root print the same bytes.
  The prints are the header followed by the prints of the visited names in visitation
  order, and the first lines of the printed functions are the headers of the declared
  names of the visitation order, in that order.
\<close>

theorem generate_deterministic_in_visitation_order:
  assumes "content' = content" and "root' = root" and "parse_types content = (S, M)"
  shows "output_text (generate root' content') = output_text (generate root content)
       \<and> generate root content =
           header_lines @ concat (map (emit_one S M) (visitation_order S M root))
       \<and> map first_line (filter (\<lambda>p. startswith p ''func '') (generate root content)) =
           map equal_header
             (filter (\<lambda>n. has_key S n \<or> has_key M n) (visitation_order S M root))"
  using assms func_lines_emit_loop [OF parse_types_word_names [OF assms(3)]]
  by (simp add: generate_def emit_loop_concat [symmetric] header_lines_no_func)

theorem generate_deterministic_in_visitation_order_witness:
  "pod_text = pod_text \<and> ''Pod'' = ''Pod''
   \<and> parse_types pod_text =
       ([(''Pod'', [(''Name'', ''string''), (''Labels'', ''map[string]string''),
                    (''Owner'', ''*Pod'')])], [])
   \<and> map first_line (filter (\<lambda>p. startswith p ''func '') (generate ''Pod'' pod_text)) =
       [''func PodEqual(a, b corev1.Pod) bool {'']"
proof -
  let ?S = "[(''Pod'', [(''Name'', ''string''), (''Labels'', ''map[string]string''),
                    (''Owner'', ''*Pod'')])]"
  have p: "parse_types pod_text = (?S, [])"
    by code_simp
  have v: "visitation_order ?S [] ''Pod'' = [''Pod'']"
    by code_simp
  have "map first_line (filter (\<lambda>p. startswith p ''func '') (generate ''Pod'' pod_text)) =
          map equal_header
            (filter (\<lambda>n. has_key ?S n \<or> has_key ([] :: maps) n) (visitation_order ?S [] ''Pod''))"
    using generate_deterministic_in_visitation_order [OF refl refl p, of "''Pod''"] by blast
  then have "map first_line (filter (\<lambda>p. startswith p ''func '') (generate ''Pod'' pod_text)) =
          [''func PodEqual(a, b corev1.Pod) bool {'']"
    by (simp add: v has_key_def equal_header_def)
  then show ?thesis
    using p by simp
qed

subsection \<open>Names without a definition\<close>

text \<open>
  C9. A name that is neither a struct nor a map alias does not make the generation
  fail: the model has no error result, since every lookup stands under its membership
  test. When such a name is popped and not yet seen, the round marks it seen, appends
  it to the visitation order and enqueues nothing; as the root it is the whole
  visitation order. The loop over the visitation order prints nothing for it.
\<close>

theorem undefined_name_marked_seen_and_skipped:
  assumes "\<not> has_key S name" and "\<not> has_key M name" and "name \<notin> seen"
  shows "loop_body S M (name # rest, seen, ordered) = (rest, insert name seen, ordered @ [name])
       \<and> visitation_order S M name = [name]
       \<and> emit_one S M name = []
       \<and> emit_loop S M (xs @ name # ys) = emit_loop S M (xs @ ys)"
proof -
  have r: "references S M name = []"
    using assms(1,2)
    by (auto simp: references_def enqueue_refs_def has_key_def split: option.splits)
  have e: "emit_one S M name = []"
    using assms(1,2) by (auto simp: emit_one_def has_key_def split: option.splits)
  have "bfs_loop S M ([name], {}, []) = bfs_loop S M ([], {name}, [name])"
    using bfs_loop_unfold [of "[name]" S M "{}" "[]"] by (simp add: loop_body_pop_new r)
  then have v: "visitation_order S M name = [name]"
    by (simp add: visitation_order_def)
  show ?thesis
    using assms(3) r e v by (simp add: loop_body_pop_new emit_loop_concat)
qed

theorem undefined_name_marked_seen_and_skipped_witness:
  "\<not> has_key ([] :: structs) ''PodSpec'' \<and> \<not> has_key ([] :: maps) ''PodSpec''
   \<and> ''PodSpec'' \<notin> ({} :: string set)
   \<and> loop_body [] [] ([''PodSpec''], {}, []) = ([], {''PodSpec''}, [''PodSpec''])
   \<and> visitation_order [] [] ''PodSpec'' = [''PodSpec'']
   \<and> emit_one [] [] ''PodSpec'' = []
   \<and> generate ''PodSpec'' [] = header_lines"
proof -
  have h: "\<not> has_key ([] :: structs) ''PodSpec''" and h': "\<not> has_key ([] :: maps) ''PodSpec''"
    by (simp_all add: has_key_def)
  have n: "''PodSpec'' \<notin> ({} :: string set)"
    by simp
  have g: "generate ''PodSpec'' [] =
             header_lines @ emit_loop [] [] (visitation_order [] [] ''PodSpec'')"
    by (simp add: generate_def parse_types_def parse_line_def map_type_re_def type_name_def
        struct_start_re_def startswith_def)
  show ?thesis
    using undefined_name_marked_seen_and_skipped [OF h h' n, of "[]" "[]" "[]" "[]"] h h' g
    by simp
qed

text \<open>
  C10. Every name of the visitation order other than the root is a key of the struct
  registry or of the map-alias registry, and the same holds for every name in the queue
  after any number of rounds: a referenced name without a definition is never enqueued.
\<close>

theorem only_root_may_be_undefined:
  "(\<forall>n \<in> set (visitation_order S M root). n \<noteq> root \<longrightarrow> has_key S n \<or> has_key M n)
   \<and> (case (loop_body S M ^^ k) ([root], {}, []) of (queue, seen, ordered) \<Rightarrow>
        \<forall>n \<in> set queue \<union> set ordered. n \<noteq> root \<longrightarrow> has_key S n \<or> has_key M n)"
  using visitation_order_defined [of _ S M root]
    rounds_defined [where S = S and M = M and k = k and root = root]
  by (auto split: prod.splits)

theorem only_root_may_be_undefined_witness:
  "visitation_order [(''A'', [(''x'', ''B''), (''y'', ''[]*C'')]), (''C'', [])] [] ''A'' =
     [''A'', ''C'']
   \<and> ''C'' \<in> set (visitation_order
                    [(''A'', [(''x'', ''B''), (''y'', ''[]*C'')]), (''C'', [])] [] ''A'')
   \<and> ''C'' \<noteq> ''A''
   \<and> (has_key [(''A'', [(''x'', ''B''), (''y'', ''[]*C'')]), (''C'', [])] ''C''
        \<or> has_key ([] :: maps) ''C'')
   \<and> (loop_body [(''A'', [(''x'', ''B''), (''y'', ''[]*C'')]), (''C'', [])] [] ^^ 1)
        ([''A''], {}, []) =
       ([''C''], {''A''}, [''A''])"
proof -
  let ?S = "[(''A'', [(''x'', ''B''), (''y'', ''[]*C'')]), (''C'', [])]"
  have v: "visitation_order ?S [] ''A'' = [''A'', ''C'']"
    by code_simp
  have l: "loop_body ?S [] ([''A''], {}, []) = ([''C''], {''A''}, [''A''])"
    by code_simp
  have "has_key ?S ''C'' \<or> has_key ([] :: maps) ''C''"
    using only_root_may_be_undefined [of ?S "[]" "''A''" 1] v by simp
  then show ?thesis
    using v l by simp
qed

end
